theory Spec2Isabelle
  imports Main "HOL-Library.AList" "HOL-Library.Multiset" "HOL-Library.Sublist"
begin

section \<open>Path components (paths.py)\<close>

text \<open>
  A path component is a literal segment (\<open>Some s\<close>) or a parameter slot (Python's
  \<open>None\<close>); a component sequence is a Python tuple of them.
\<close>

type_synonym component = "string option"
type_synonym components = "component list"

text \<open>
  The loop of \<open>component_matches\<close> over \<open>zip(c1, c2)\<close>: it returns False at the first
  pair with \<open>e1 != e2 and e2 is not None\<close>, and True when the pairs are exhausted.
\<close>

fun pairs_match :: "(component \<times> component) list \<Rightarrow> bool" where
  "pairs_match [] = True"
| "pairs_match ((e1, e2) # ps) =
     (if e1 \<noteq> e2 \<and> e2 \<noteq> None then False else pairs_match ps)"

definition component_matches :: "components \<Rightarrow> components \<Rightarrow> bool" where
  "component_matches c1 c2 =
     (if length c1 \<noteq> length c2 then False else pairs_match (zip c1 c2))"

subsection \<open>Strings\<close>

text \<open>
  Python's \<open>s.split('/')\<close> and \<open>'/'.join(xs)\<close>. Splitting always yields at least one
  piece; the empty string splits into one empty piece.
\<close>

fun str_split :: "char \<Rightarrow> string \<Rightarrow> string list" where
  "str_split d [] = [[]]"
| "str_split d (c # cs) =
     (if c = d then [] # str_split d cs
      else (case str_split d cs of [] \<Rightarrow> [[c]] | w # ws \<Rightarrow> (c # w) # ws))"

fun str_join :: "string \<Rightarrow> string list \<Rightarrow> string" where
  "str_join d [] = []"
| "str_join d [x] = x"
| "str_join d (x # y # ys) = x @ d @ str_join d (y # ys)"

text \<open>The decimal rendering of a counter, as \<open>"%s" % i\<close> gives for a non-negative int.\<close>

definition digit_char :: "nat \<Rightarrow> char" where
  "digit_char n = ''0123456789'' ! (n mod 10)"

function str_nat :: "nat \<Rightarrow> string" where
  "str_nat n = (if n < 10 then [digit_char n] else str_nat (n div 10) @ [digit_char (n mod 10)])"
  by pat_completeness auto
termination
  by (relation "measure id") auto

declare str_nat.simps [simp del]

subsection \<open>Templated paths\<close>

text \<open>
  The loop of \<open>build_paramaterized_path\<close>: \<open>i\<close> counts the slots seen so far, and a slot
  is rendered as \<open>{param<i>}\<close> after incrementing it.
\<close>

fun render_components :: "nat \<Rightarrow> components \<Rightarrow> string list" where
  "render_components i [] = []"
| "render_components i (None # cs) =
     (''{param'' @ str_nat (Suc i) @ ''}'') # render_components (Suc i) cs"
| "render_components i (Some s # cs) = s # render_components i cs"

definition build_paramaterized_path :: "components \<Rightarrow> string" where
  "build_paramaterized_path components = ''/'' @ str_join ''/'' (render_components 0 components)"

section \<open>Tokenising a raw path (Generator.is_param, Generator._get_components)\<close>

text \<open>
  Strings are modelled as lists of 8-bit characters, which covers the ASCII paths of
  URLs. \<open>newline\<close> is the line feed that the regular expression treats specially.
\<close>

definition newline :: char where
  "newline = CHR 0x0A"

text \<open>
  \<open>_param_pattern = re.compile(r'^{.+}$')\<close> used with \<open>match\<close>: an opening brace, one
  or more characters other than a line feed, a closing brace, and then the end of the
  string or a single line feed that ends the string.
\<close>

definition param_pattern_match :: "string \<Rightarrow> bool" where
  "param_pattern_match ex =
     (let t = (if ex \<noteq> [] \<and> last ex = newline then butlast ex else ex)
      in 3 \<le> length t \<and> hd t = CHR ''{'' \<and> last t = CHR ''}''
         \<and> newline \<notin> set (butlast (tl t)))"

definition isdigit :: "string \<Rightarrow> bool" where
  "isdigit ex = (ex \<noteq> [] \<and> list_all (\<lambda>c. c \<in> set ''0123456789'') ex)"

text \<open>The default \<open>is_param\<close>; its second argument, the whole path, is not used.\<close>

definition is_param :: "string \<Rightarrow> string \<Rightarrow> bool" where
  "is_param ex path = (param_pattern_match ex \<or> isdigit ex)"

datatype error =
  EmptyExampleArrayError | IndexError | KeyError | TypeError | AttributeError | ValidatorFailure

text \<open>
  \<open>_get_components\<close>: \<open>components[0]\<close> raises IndexError when stripping the base path
  has left nothing.
\<close>

definition get_components :: "string \<Rightarrow> string \<Rightarrow> error + components" where
  "get_components base_path path =
     (let components = map (\<lambda>e. if \<not> is_param e path then Some e else None)
                           (str_split CHR ''/'' path);
          base_components = map Some (str_split CHR ''/'' base_path);
          components = (if base_components = take (length base_components) components
                        then drop (length base_components) components else components)
      in case components of
           [] \<Rightarrow> Inl IndexError
         | e # rest \<Rightarrow> Inr (if e = Some [] then rest else components))"

section \<open>Merging raw paths into routes (Generator._merge_examples)\<close>

text \<open>
  A Python dict is an association list with distinct keys in insertion order:
  \<open>AList.update\<close> overwrites a present key in place and appends an absent one, and
  \<open>AList.delete\<close> is \<open>pop\<close>.
\<close>

type_synonym 'e buckets = "(components \<times> 'e list) list"

text \<open>\<open>component_examples[key].extend(exs)\<close> on a \<open>defaultdict(list)\<close>.\<close>

definition extend_bucket :: "components \<Rightarrow> 'e list \<Rightarrow> 'e buckets \<Rightarrow> 'e buckets" where
  "extend_bucket key exs ce =
     AList.update key ((case map_of ce key of None \<Rightarrow> [] | Some old \<Rightarrow> old) @ exs) ce"

text \<open>First pass: bucket the examples of every raw path under its naive components.\<close>

fun naive_group :: "string \<Rightarrow> (string \<times> 'e list) list \<Rightarrow> 'e buckets \<Rightarrow> error + 'e buckets" where
  "naive_group base_path [] ce = Inr ce"
| "naive_group base_path ((path, exs) # rest) ce =
     (case get_components base_path path of
        Inl err \<Rightarrow> Inl err
      | Inr components \<Rightarrow> naive_group base_path rest (extend_bucket components exs ce))"

text \<open>
  The inner loop: the first key \<open>c2\<close> of the dict, other than \<open>c1\<close> itself, with
  \<open>component_matches(c1, c2)\<close>. The keys of a dict are pairwise different and \<open>c1\<close> is
  one of them, so the identity test \<open>c1 is c2\<close> is equality of keys.
\<close>

fun find_match :: "components \<Rightarrow> components list \<Rightarrow> components option" where
  "find_match c1 [] = None"
| "find_match c1 (c2 # cs) =
     (if c1 = c2 then find_match c1 cs
      else if component_matches c1 c2 then Some c2
      else find_match c1 cs)"

text \<open>
  The body of the outer loop. \<open>if match:\<close> is false for no match and also for the empty
  tuple; \<open>pop\<close> raises KeyError on a missing key.
\<close>

definition absorb :: "components \<Rightarrow> 'e buckets \<Rightarrow> error + 'e buckets" where
  "absorb c1 ce =
     (case find_match c1 (map fst ce) of
        None \<Rightarrow> Inr ce
      | Some m \<Rightarrow>
          if m = [] then Inr ce
          else (case map_of ce c1 of
                  None \<Rightarrow> Inl KeyError
                | Some my_examples \<Rightarrow> Inr (extend_bucket m my_examples (AList.delete c1 ce))))"

text \<open>The outer loop runs over the keys of a copy taken before the pass.\<close>

fun refine :: "components list \<Rightarrow> 'e buckets \<Rightarrow> error + 'e buckets" where
  "refine [] ce = Inr ce"
| "refine (c1 # cs) ce =
     (case absorb c1 ce of Inl err \<Rightarrow> Inl err | Inr ce' \<Rightarrow> refine cs ce')"

text \<open>A dict comprehension: a later item with the same key overwrites an earlier one.\<close>

definition dict_of_items :: "('k \<times> 'v) list \<Rightarrow> ('k \<times> 'v) list" where
  "dict_of_items items = foldl (\<lambda>d (k, v). AList.update k v d) [] items"

definition merge_examples ::
  "string \<Rightarrow> (string \<times> 'e list) list \<Rightarrow> error + (string \<times> 'e list) list" where
  "merge_examples base_path path_to_examples =
     (case naive_group base_path path_to_examples [] of
        Inl err \<Rightarrow> Inl err
      | Inr component_examples \<Rightarrow>
          (case refine (map fst component_examples) component_examples of
             Inl err \<Rightarrow> Inl err
           | Inr merged \<Rightarrow>
               Inr (dict_of_items
                      (map (\<lambda>(components, exs). (build_paramaterized_path components, exs))
                           merged))))"

text \<open>
  A bucket is maximal among a set of buckets when it matches no bucket of the set other
  than itself, that is, when no other bucket can absorb it.
\<close>

definition maximal_in :: "components set \<Rightarrow> components \<Rightarrow> bool" where
  "maximal_in K k = (\<forall>k'\<in>K. component_matches k k' \<longrightarrow> k' = k)"

section \<open>Properties of the component matcher\<close>

lemma pairs_match_zip:
  "length c1 = length c2 \<Longrightarrow>
   pairs_match (zip c1 c2) = (\<forall>i<length c1. c1 ! i = c2 ! i \<or> c2 ! i = None)"
proof (induction c1 c2 rule: list_induct2)
  case Nil
  then show ?case by simp
next
  case (Cons x xs y ys)
  then show ?case by (auto simp: less_Suc_eq_0_disj)
qed

lemma component_matches_iff:
  "component_matches c1 c2 =
     (length c1 = length c2 \<and> (\<forall>i<length c1. c1 ! i = c2 ! i \<or> c2 ! i = None))"
  by (auto simp: component_matches_def pairs_match_zip)

lemma component_matches_refl: "component_matches c c"
  by (simp add: component_matches_iff)

lemma component_matches_antisym:
  assumes "component_matches c1 c2" and "component_matches c2 c1"
  shows "c1 = c2"
proof (rule nth_equalityI)
  show "length c1 = length c2"
    using assms(1) by (simp add: component_matches_iff)
next
  fix i assume i: "i < length c1"
  from assms(1) i have "c1 ! i = c2 ! i \<or> c2 ! i = None"
    by (simp add: component_matches_iff)
  moreover from assms(2) i have "c2 ! i = c1 ! i \<or> c1 ! i = None"
    by (simp add: component_matches_iff)
  ultimately show "c1 ! i = c2 ! i"
    by auto
qed

lemma component_matches_trans:
  assumes "component_matches a b" and "component_matches b c"
  shows "component_matches a c"
proof -
  have len: "length a = length b" "length b = length c"
    using assms by (simp_all add: component_matches_iff)
  have "a ! i = c ! i \<or> c ! i = None" if i: "i < length a" for i
  proof -
    from assms(1) i have "a ! i = b ! i \<or> b ! i = None"
      by (simp add: component_matches_iff)
    moreover from assms(2) i len have "b ! i = c ! i \<or> c ! i = None"
      by (simp add: component_matches_iff)
    ultimately show ?thesis by auto
  qed
  with len show ?thesis
    by (simp add: component_matches_iff)
qed

text \<open>
  C8. \<open>component_matches c1 c2\<close> holds exactly when the two sequences have the same
  length and, at every position, the segments are equal or the segment of the second
  sequence is a parameter slot. Every sequence matches itself, and the relation is not
  symmetric: some pair matches in one direction only.
\<close>

theorem component_matches_characterisation:
  "(component_matches c1 c2 \<longleftrightarrow>
      length c1 = length c2 \<and> (\<forall>i<length c1. c1 ! i = c2 ! i \<or> c2 ! i = None))
   \<and> component_matches c c
   \<and> (\<exists>a b. component_matches a b \<and> \<not> component_matches b a)"
proof (intro conjI)
  show "component_matches c1 c2 \<longleftrightarrow>
      length c1 = length c2 \<and> (\<forall>i<length c1. c1 ! i = c2 ! i \<or> c2 ! i = None)"
    by (rule component_matches_iff)
  show "component_matches c c"
    by (rule component_matches_refl)
  have "component_matches [Some ''a''] [None] \<and> \<not> component_matches [None] [Some ''a'']"
    by (simp add: component_matches_def)
  then show "\<exists>a b. component_matches a b \<and> \<not> component_matches b a"
    by blast
qed

theorem component_matches_characterisation_witness:
  "component_matches [Some ''users'', Some ''test_an_error''] [Some ''users'', None]
   \<and> \<not> component_matches [Some ''users'', None] [Some ''users'', Some ''test_an_error'']
   \<and> \<not> component_matches [Some ''users''] [Some ''users'', None]"
proof -
  have a: "\<forall>i<length [Some ''users'', Some ''test_an_error''].
      [Some ''users'', Some ''test_an_error''] ! i = [Some ''users'', None] ! i
      \<or> [Some ''users'', None] ! i = None"
    by (simp add: less_Suc_eq_0_disj)
  have b: "\<not> (\<forall>i<length [Some ''users'', None::string option].
      [Some ''users'', None] ! i = [Some ''users'', Some ''test_an_error''] ! i
      \<or> [Some ''users'', Some ''test_an_error''] ! i = None)"
    by (auto intro: exI[of _ 1])
  show ?thesis
    using a b
      component_matches_characterisation
        [of "[Some ''users'', Some ''test_an_error'']" "[Some ''users'', None]" "[]"]
      component_matches_characterisation
        [of "[Some ''users'', None]" "[Some ''users'', Some ''test_an_error'']" "[]"]
      component_matches_characterisation
        [of "[Some ''users'']" "[Some ''users'', None]" "[]"]
    by simp
qed

text \<open>
  C10. The matcher is antisymmetric: two sequences that match each other in both
  directions are the same sequence, so two distinct buckets are never each absorbable
  into the other.
\<close>

theorem component_matches_antisymmetric:
  "component_matches c1 c2 \<Longrightarrow> component_matches c2 c1 \<Longrightarrow> c1 = c2"
  by (rule component_matches_antisym)

theorem component_matches_antisymmetric_witness:
  "component_matches [Some ''users'', None] [Some ''users'', None]
   \<and> [Some ''users'', None :: string option] = [Some ''users'', None]"
proof -
  have m: "component_matches [Some ''users'', None] [Some ''users'', None]"
    by (simp add: component_matches_def)
  from component_matches_antisymmetric [OF m m] m show ?thesis by simp
qed

section \<open>Properties of the refinement pass\<close>

lemma find_match_Some:
  "find_match c1 cs = Some m \<Longrightarrow> m \<in> set cs \<and> m \<noteq> c1 \<and> component_matches c1 m"
  by (induction cs) (auto split: if_splits)

lemma find_match_None:
  "find_match c1 cs = None \<longleftrightarrow> (\<forall>c2\<in>set cs. c2 \<noteq> c1 \<longrightarrow> \<not> component_matches c1 c2)"
  by (induction cs) auto

lemma find_match_nonempty:
  assumes "find_match c1 cs = Some m"
  shows "m \<noteq> []"
proof
  assume "m = []"
  with find_match_Some [OF assms] have "component_matches c1 []" and "c1 \<noteq> []"
    by auto
  then show False
    by (simp add: component_matches_iff)
qed

lemma map_of_extend_bucket:
  "map_of (extend_bucket key exs ce) =
     (map_of ce)(key \<mapsto> (case map_of ce key of None \<Rightarrow> [] | Some old \<Rightarrow> old) @ exs)"
  by (simp add: extend_bucket_def update_conv')

lemma keys_extend_bucket:
  "fst ` set (extend_bucket key exs ce) = insert key (fst ` set ce)"
  by (simp add: extend_bucket_def dom_update)

lemma distinct_extend_bucket:
  "distinct (map fst ce) \<Longrightarrow> distinct (map fst (extend_bucket key exs ce))"
  by (simp add: extend_bucket_def distinct_update)

lemma absorb_None:
  "find_match c1 (map fst ce) = None \<Longrightarrow> absorb c1 ce = Inr ce"
  by (simp add: absorb_def)

lemma absorb_Some:
  assumes "find_match c1 (map fst ce) = Some m" and "map_of ce c1 = Some ex1"
  shows "absorb c1 ce = Inr (extend_bucket m ex1 (AList.delete c1 ce))"
  using assms find_match_nonempty [OF assms(1)] by (simp add: absorb_def)

lemma map_of_absorbed:
  assumes "m \<noteq> c1" and "map_of ce m = Some exm"
  shows "map_of (extend_bucket m ex1 (AList.delete c1 ce)) =
           ((map_of ce)(c1 := None))(m \<mapsto> exm @ ex1)"
  using assms by (simp add: map_of_extend_bucket delete_conv')

lemma keys_absorbed:
  assumes "m \<in> fst ` set ce" and "m \<noteq> c1"
  shows "fst ` set (extend_bucket m ex1 (AList.delete c1 ce)) = fst ` set ce - {c1}"
proof -
  have "set (map fst (AList.delete c1 ce)) = set (map fst ce) - {c1}"
    by (simp add: delete_keys)
  then have "fst ` set (AList.delete c1 ce) = fst ` set ce - {c1}"
    by simp
  with assms show ?thesis
    by (auto simp: keys_extend_bucket)
qed

lemma distinct_absorbed:
  "distinct (map fst ce) \<Longrightarrow> distinct (map fst (extend_bucket m ex1 (AList.delete c1 ce)))"
  by (simp add: distinct_extend_bucket distinct_delete)

lemma refine_invariant:
  assumes "distinct (map fst ce)" and "distinct cs" and "set cs \<subseteq> fst ` set ce"
    and "\<forall>k\<in>fst ` set ce. k \<notin> set cs \<longrightarrow> maximal_in (fst ` set ce) k"
  shows "\<exists>ce'. refine cs ce = Inr ce' \<and> distinct (map fst ce')
           \<and> fst ` set ce' \<subseteq> fst ` set ce
           \<and> (\<forall>k\<in>fst ` set ce'. maximal_in (fst ` set ce') k)
           \<and> (\<forall>k exs. map_of ce k = Some exs \<longrightarrow>
                 (\<exists>s exs'. map_of ce' s = Some exs' \<and> component_matches k s
                    \<and> set exs \<subseteq> set exs'))"
  using assms
proof (induction cs arbitrary: ce)
  case Nil
  then show ?case
    by (auto intro: component_matches_refl)
next
  case (Cons c1 cs)
  from Cons.prems have c1_key: "c1 \<in> fst ` set ce" and c1_new: "c1 \<notin> set cs"
    and dcs: "distinct cs" and sub: "set cs \<subseteq> fst ` set ce"
    by auto
  from c1_key Cons.prems(1) obtain ex1 where ex1: "map_of ce c1 = Some ex1"
    by (metis domD dom_map_of_conv_image_fst)
  show ?case
  proof (cases "find_match c1 (map fst ce)")
    case None
    then have step: "absorb c1 ce = Inr ce"
      by (rule absorb_None)
    have "maximal_in (fst ` set ce) c1"
      using None by (auto simp: maximal_in_def find_match_None)
    with Cons.prems(4) have "\<forall>k\<in>fst ` set ce. k \<notin> set cs \<longrightarrow> maximal_in (fst ` set ce) k"
      by auto
    from Cons.IH [OF Cons.prems(1) dcs sub this] step show ?thesis
      by simp
  next
    case (Some m)
    let ?ce1 = "extend_bucket m ex1 (AList.delete c1 ce)"
    from find_match_Some [OF Some] have m_key: "m \<in> fst ` set ce" and m_ne: "m \<noteq> c1"
      and m_match: "component_matches c1 m"
      by auto
    from m_key obtain exm where exm: "map_of ce m = Some exm"
      by (metis domD dom_map_of_conv_image_fst)
    have step: "absorb c1 ce = Inr ?ce1"
      using Some ex1 by (rule absorb_Some)
    have keys1: "fst ` set ?ce1 = fst ` set ce - {c1}"
      using m_key m_ne by (rule keys_absorbed)
    have map1: "map_of ?ce1 = ((map_of ce)(c1 := None))(m \<mapsto> exm @ ex1)"
      using m_ne exm by (rule map_of_absorbed)
    have d1: "distinct (map fst ?ce1)"
      using Cons.prems(1) by (rule distinct_absorbed)
    have sub1: "set cs \<subseteq> fst ` set ?ce1"
      using sub c1_new keys1 by auto
    have max1: "\<forall>k\<in>fst ` set ?ce1. k \<notin> set cs \<longrightarrow> maximal_in (fst ` set ?ce1) k"
      using Cons.prems(4) keys1 by (auto simp: maximal_in_def)
    from Cons.IH [OF d1 dcs sub1 max1] obtain ce' where
      r: "refine cs ?ce1 = Inr ce'" and d': "distinct (map fst ce')"
      and k': "fst ` set ce' \<subseteq> fst ` set ?ce1"
      and mx: "\<forall>k\<in>fst ` set ce'. maximal_in (fst ` set ce') k"
      and rep: "\<And>k exs. map_of ?ce1 k = Some exs \<Longrightarrow>
                 \<exists>s exs'. map_of ce' s = Some exs' \<and> component_matches k s \<and> set exs \<subseteq> set exs'"
      by blast
    have "\<exists>s exs'. map_of ce' s = Some exs' \<and> component_matches k s \<and> set exs \<subseteq> set exs'"
      if k: "map_of ce k = Some exs" for k exs
    proof -
      from rep [of m "exm @ ex1"] map1 obtain s exs' where
        s: "map_of ce' s = Some exs'" "component_matches m s" "set (exm @ ex1) \<subseteq> set exs'"
        by auto
      consider "k = c1" | "k = m" | "k \<noteq> c1" "k \<noteq> m"
        by blast
      then show ?thesis
      proof cases
        case 1
        with k ex1 have "exs = ex1" by simp
        moreover have "component_matches k s"
          using 1 m_match s(2) by (auto intro: component_matches_trans)
        ultimately show ?thesis using s by auto
      next
        case 2
        with k exm have "exs = exm" by simp
        with 2 s show ?thesis by auto
      next
        case 3
        with k map1 have "map_of ?ce1 k = Some exs" by simp
        from rep [OF this] show ?thesis .
      qed
    qed
    moreover have "refine (c1 # cs) ce = Inr ce'"
      using step r by simp
    moreover have "fst ` set ce' \<subseteq> fst ` set ce"
      using k' keys1 by auto
    ultimately show ?thesis
      using d' mx by blast
  qed
qed

lemma refine_survivors:
  assumes "distinct (map fst ce)"
  shows "\<exists>ce'. refine (map fst ce) ce = Inr ce' \<and> distinct (map fst ce')
           \<and> fst ` set ce' = {k \<in> fst ` set ce. maximal_in (fst ` set ce) k}
           \<and> (\<forall>k exs. map_of ce k = Some exs \<longrightarrow>
                 (\<exists>s exs'. map_of ce' s = Some exs' \<and> component_matches k s
                    \<and> set exs \<subseteq> set exs'))"
proof -
  let ?K = "fst ` set ce"
  have "\<forall>k\<in>?K. k \<notin> set (map fst ce) \<longrightarrow> maximal_in ?K k"
    by simp
  from refine_invariant [OF assms assms _ this] obtain ce' where
    r: "refine (map fst ce) ce = Inr ce'" and d': "distinct (map fst ce')"
    and k': "fst ` set ce' \<subseteq> ?K"
    and mx: "\<forall>k\<in>fst ` set ce'. maximal_in (fst ` set ce') k"
    and rep: "\<And>k exs. map_of ce k = Some exs \<Longrightarrow>
               \<exists>s exs'. map_of ce' s = Some exs' \<and> component_matches k s \<and> set exs \<subseteq> set exs'"
    by auto
  have rep_key: "\<exists>s\<in>fst ` set ce'. component_matches k s" if "k \<in> ?K" for k
  proof -
    from that obtain exs where "map_of ce k = Some exs"
      by (metis domD dom_map_of_conv_image_fst)
    from rep [OF this] show ?thesis
      by (metis domI dom_map_of_conv_image_fst)
  qed
  have "maximal_in ?K s" if s: "s \<in> fst ` set ce'" for s
    unfolding maximal_in_def
  proof (intro ballI impI)
    fix k assume k: "k \<in> ?K" and sk: "component_matches s k"
    from rep_key [OF k] obtain s' where s': "s' \<in> fst ` set ce'" "component_matches k s'"
      by blast
    from sk s'(2) have "component_matches s s'"
      by (rule component_matches_trans)
    with mx s s'(1) have "s' = s"
      by (auto simp: maximal_in_def)
    with s'(2) sk show "k = s"
      by (auto intro: component_matches_antisym)
  qed
  moreover have "k \<in> fst ` set ce'" if "k \<in> ?K" "maximal_in ?K k" for k
  proof -
    from rep_key [OF that(1)] obtain s where s: "s \<in> fst ` set ce'" "component_matches k s"
      by blast
    from s(1) k' have "s \<in> ?K"
      by blast
    with that(2) s(2) have "s = k"
      unfolding maximal_in_def by blast
    with s show ?thesis by simp
  qed
  ultimately have "fst ` set ce' = {k \<in> ?K. maximal_in ?K k}"
    using k' by blast
  with r d' rep show ?thesis
    by blast
qed

end
